theory Spec2Isabelle
  imports Main
begin

section \<open>Errors and Python values\<close>

text \<open>
  The exceptions the notebook's code can raise. \<open>IndexError\<close>, \<open>ValueError\<close>,
  \<open>EOFError\<close> and \<open>NameError\<close> are Python's own; \<open>QiskitError\<close> stands for the
  exceptions of the Qiskit library (\<open>QiskitError\<close> and its subclass \<open>CircuitError\<close>).
  The source defines no exception class of its own.
\<close>

datatype error = IndexError | ValueError | EOFError | NameError | QiskitError

text \<open>
  The notebook runs under IPython (every code cell carries an execution count). There
  the source line \<^verbatim>\<open>odd = !odd\<close> of \<^verbatim>\<open>QuantumEncoder.check\<close> is IPython's shell
  capture \<^verbatim>\<open>odd = get_ipython().getoutput('odd')\<close>: it runs the command line
  \<^verbatim>\<open>odd\<close> in the system shell and binds \<^verbatim>\<open>odd\<close> to the list of lines the
  command printed. So the variable holds either the initial Python \<^verbatim>\<open>False\<close> or such a
  list. (Outside IPython the line is a syntax error.)
\<close>

datatype hint = PyBool bool | SList "string list"

text \<open>Python truthiness, as used by \<^verbatim>\<open>"odd" if hint else "even"\<close>.\<close>

fun truthy :: "hint \<Rightarrow> bool" where
  "truthy (PyBool b) = b"
| "truthy (SList ls) = (ls \<noteq> [])"

text \<open>The system shell: a command line is mapped to the lines it prints.\<close>

type_synonym shell = "string \<Rightarrow> string list"

text \<open>A shell in which \<^verbatim>\<open>odd\<close> is not a command: it prints one line of complaint.\<close>

definition no_such_command :: shell where
  "no_such_command cmd = [''/bin/sh: 1: '' @ cmd @ '': not found'']"

section \<open>The codemaker\<close>

record codemaker =
  code :: string

definition codemaker_init :: codemaker where
  "codemaker_init = \<lparr>codemaker.code = ''''\<rparr>"

text \<open>
  \<^verbatim>\<open>setCode\<close> clears the stored code and appends \<^verbatim>\<open>code[i]\<close> for every index of its
  argument. For a \<^verbatim>\<open>str\<close> argument \<^verbatim>\<open>code[i]\<close> is the one-character string at \<open>i\<close>.
\<close>

definition setCode :: "codemaker \<Rightarrow> string \<Rightarrow> codemaker" where
  "setCode self c =
     fold (\<lambda>i s. s\<lparr>codemaker.code := codemaker.code s @ [c ! i]\<rparr>) [0..<length c] (self\<lparr>codemaker.code := ''''\<rparr>)"

text \<open>
  \<^verbatim>\<open>HumanSetter\<close> hands the same method a list of strings (one per prompt); then
  \<^verbatim>\<open>code[i]\<close> is the \<open>i\<close>-th string of the list.
\<close>

definition setCode_list :: "codemaker \<Rightarrow> string list \<Rightarrow> codemaker" where
  "setCode_list self c =
     fold (\<lambda>i s. s\<lparr>codemaker.code := codemaker.code s @ c ! i\<rparr>) [0..<length c] (self\<lparr>codemaker.code := ''''\<rparr>)"

text \<open>\<^verbatim>\<open>getCode\<close> returns the stored code; the object is returned beside it.\<close>

definition getCode :: "codemaker \<Rightarrow> string \<times> codemaker" where
  "getCode self = (codemaker.code self, self)"

section \<open>The encoder's verification half\<close>

record QuantumEncoder =
  code :: string

definition QuantumEncoder_init :: QuantumEncoder where
  "QuantumEncoder_init = \<lparr>QuantumEncoder.code = ''''\<rparr>"

text \<open>
  The loop of \<^verbatim>\<open>check\<close>: \<open>i\<close> is the index \<^verbatim>\<open>enumerate\<close> yields, \<open>vs\<close> the rest of
  \<^verbatim>\<open>self.code\<close>. Python evaluates \<^verbatim>\<open>input[i]\<close> only when \<^verbatim>\<open>value == '1'\<close>, and
  raises \<open>IndexError\<close> when \<open>i\<close> is not an index of \<^verbatim>\<open>input\<close>.
\<close>

fun check_loop :: "shell \<Rightarrow> string \<Rightarrow> nat \<Rightarrow> string \<Rightarrow> hint \<Rightarrow> error + hint" where
  "check_loop sh input i [] odd' = Inr odd'"
| "check_loop sh input i (v # vs) odd' =
     (if v = CHR ''1'' then
        (if i < length input then
           check_loop sh input (Suc i) vs
             (if input ! i = CHR ''1'' then SList (sh ''odd'') else odd')
         else Inl IndexError)
      else check_loop sh input (Suc i) vs odd')"

definition check :: "shell \<Rightarrow> QuantumEncoder \<Rightarrow> string \<Rightarrow> error + hint \<times> bool" where
  "check sh self input =
     (case check_loop sh input 0 (QuantumEncoder.code self) (PyBool False) of
        Inl e \<Rightarrow> Inl e
      | Inr odd' \<Rightarrow> Inr (odd', QuantumEncoder.code self = input))"

text \<open>The number of positions where guess and secret are both \<open>1\<close>.\<close>

definition overlap :: "string \<Rightarrow> string \<Rightarrow> nat" where
  "overlap s g = length (filter (\<lambda>(a, b). a = CHR ''1'' \<and> b = CHR ''1'') (zip s g))"

section \<open>Circuits\<close>

text \<open>
  The part of Qiskit's \<^verbatim>\<open>QuantumCircuit\<close> that the notebook uses: the sizes of the two
  registers and the list of instructions, in the order in which they were appended.
\<close>

datatype instr = X nat | H nat | CX nat nat | Barrier | Measure nat nat

record QuantumCircuit =
  num_qubits :: nat
  num_clbits :: nat
  data :: "instr list"

definition QuantumCircuit :: "nat \<Rightarrow> nat \<Rightarrow> QuantumCircuit" where
  "QuantumCircuit nq nc = \<lparr>num_qubits = nq, num_clbits = nc, data = []\<rparr>"

definition qc_x :: "QuantumCircuit \<Rightarrow> nat \<Rightarrow> QuantumCircuit" where
  "qc_x qc q = qc\<lparr>data := data qc @ [X q]\<rparr>"

text \<open>
  \<^verbatim>\<open>qc.h(qubits)\<close> appends one Hadamard gate per listed qubit; Qiskit rejects an empty
  list of qubits for a gate.
\<close>

definition qc_h :: "QuantumCircuit \<Rightarrow> nat list \<Rightarrow> error + QuantumCircuit" where
  "qc_h qc qs = (if qs = [] then Inl QiskitError else Inr (qc\<lparr>data := data qc @ map H qs\<rparr>))"

definition qc_cx :: "QuantumCircuit \<Rightarrow> nat \<Rightarrow> nat \<Rightarrow> QuantumCircuit" where
  "qc_cx qc c t = qc\<lparr>data := data qc @ [CX c t]\<rparr>"

definition qc_barrier :: "QuantumCircuit \<Rightarrow> QuantumCircuit" where
  "qc_barrier qc = qc\<lparr>data := data qc @ [Barrier]\<rparr>"

text \<open>\<^verbatim>\<open>qc.compose(other)\<close> appends the instructions of \<open>other\<close> on the same wires.\<close>

definition qc_compose :: "QuantumCircuit \<Rightarrow> QuantumCircuit \<Rightarrow> QuantumCircuit" where
  "qc_compose qc other = qc\<lparr>data := data qc @ data other\<rparr>"

text \<open>
  \<^verbatim>\<open>qc.measure(qubits, clbits)\<close> pairs the two ranges; Qiskit broadcasts a single
  qubit over several classical bits and rejects every other mismatch of the sizes.
\<close>

definition qc_measure :: "QuantumCircuit \<Rightarrow> nat list \<Rightarrow> nat list \<Rightarrow> error + QuantumCircuit" where
  "qc_measure qc qs cs =
     (if length cs = length qs then
        Inr (qc\<lparr>data := data qc @ map (\<lambda>(q, c). Measure q c) (zip qs cs)\<rparr>)
      else if length qs = 1 \<and> cs \<noteq> [] then
        Inr (qc\<lparr>data := data qc @ map (Measure (hd qs)) cs\<rparr>)
      else Inl QiskitError)"

section \<open>The encoder's circuit half\<close>

text \<open>
  \<^verbatim>\<open>encode\<close> stores the code and builds the oracle: a controlled NOT from qubit \<open>i\<close> onto
  the extra qubit for every \<open>1\<close> at position \<open>i\<close> of the reversed code.
\<close>

definition encode :: "QuantumEncoder \<Rightarrow> string \<Rightarrow> QuantumCircuit \<times> QuantumEncoder" where
  "encode self c =
     (let len = length c;
          qc = QuantumCircuit (len + 1) len
      in (fold (\<lambda>(i, v) qc. if v = CHR ''1'' then qc_cx qc i (length c) else qc)
               (enumerate 0 (rev c)) qc,
          self\<lparr>QuantumEncoder.code := c\<rparr>))"

section \<open>An ideal simulator\<close>

text \<open>
  Modelled from the spec: the State Simulator, Qiskit's backend behind \<^verbatim>\<open>execute\<close>, is
  not part of the source. The spec treats it as the capability of running a program for
  a number of shots and returning the table of measured bit-strings, and asks for an
  ideal, noiseless one. This section gives the instructions of the source's circuits
  their textbook meaning.

  A classical assignment of the qubits is a list of booleans, qubit \<open>i\<close> at index \<open>i\<close>.
  \<open>X\<close> and \<open>CX\<close> permute the assignments; \<open>H\<close> does not.
\<close>

fun flip :: "instr \<Rightarrow> bool list \<Rightarrow> bool list option" where
  "flip (X q) b = Some (b[q := \<not> b ! q])"
| "flip (CX c t) b = Some (if b ! c then b[t := \<not> b ! t] else b)"
| "flip Barrier b = Some b"
| "flip (H q) b = None"
| "flip (Measure q c) b = None"

text \<open>Are the wires an instruction names within the registers (and distinct)?\<close>

fun wires_ok :: "nat \<Rightarrow> nat \<Rightarrow> instr \<Rightarrow> bool" where
  "wires_ok nq nc (X q) = (q < nq)"
| "wires_ok nq nc (H q) = (q < nq)"
| "wires_ok nq nc (CX c t) = (c < nq \<and> t < nq \<and> c \<noteq> t)"
| "wires_ok nq nc Barrier = True"
| "wires_ok nq nc (Measure q c) = (q < nq \<and> c < nc)"

text \<open>
  Applying a reversible classical fragment to an assignment: every instruction in turn;
  \<open>None\<close> when the assignment or an instruction does not fit the fragment's register, or
  when the fragment holds an instruction that is not classical.
\<close>

fun flips :: "instr list \<Rightarrow> bool list \<Rightarrow> bool list option" where
  "flips [] b = Some b"
| "flips (g # gs) b = (case flip g b of None \<Rightarrow> None | Some b' \<Rightarrow> flips gs b')"

definition apply_fragment :: "QuantumCircuit \<Rightarrow> bool list \<Rightarrow> bool list option" where
  "apply_fragment qc b =
     (if length b = num_qubits qc \<and> list_all (wires_ok (num_qubits qc) (num_clbits qc)) (data qc)
      then flips (data qc) b else None)"

text \<open>
  A state assigns an amplitude to every assignment. The amplitudes are kept as integers:
  the common factor \<open>1 / sqrt 2\<close> of each Hadamard gate is left out, which changes no
  ratio of probabilities and in particular not which outcomes have probability zero.
\<close>

type_synonym state = "bool list \<Rightarrow> int"

definition zero_state :: "nat \<Rightarrow> state" where
  "zero_state n = (\<lambda>b. if b = replicate n False then 1 else 0)"

fun apply_gate :: "instr \<Rightarrow> state \<Rightarrow> state" where
  "apply_gate (X q) \<psi> = (\<lambda>b. \<psi> (b[q := \<not> b ! q]))"
| "apply_gate (CX c t) \<psi> = (\<lambda>b. \<psi> (if b ! c then b[t := \<not> b ! t] else b))"
| "apply_gate (H q) \<psi> = (\<lambda>b. \<psi> (b[q := False]) + (if b ! q then - 1 else 1) * \<psi> (b[q := True]))"
| "apply_gate Barrier \<psi> = \<psi>"
| "apply_gate (Measure q c) \<psi> = \<psi>"

fun is_Measure :: "instr \<Rightarrow> bool" where
  "is_Measure (Measure q c) = True"
| "is_Measure g = False"

text \<open>
  The simulator runs programs whose measurements all come last: the gates before the
  first measurement give the final state, the measurements after it say which qubit is
  copied to which classical bit.
\<close>

definition gates :: "QuantumCircuit \<Rightarrow> instr list" where
  "gates qc = takeWhile (\<lambda>g. \<not> is_Measure g) (data qc)"

definition measurements :: "QuantumCircuit \<Rightarrow> instr list" where
  "measurements qc = dropWhile (\<lambda>g. \<not> is_Measure g) (data qc)"

definition runnable :: "QuantumCircuit \<Rightarrow> bool" where
  "runnable qc \<longleftrightarrow>
     list_all (wires_ok (num_qubits qc) (num_clbits qc)) (data qc)
     \<and> list_all is_Measure (measurements qc)"

definition final_state :: "QuantumCircuit \<Rightarrow> state" where
  "final_state qc = fold apply_gate (gates qc) (zero_state (num_qubits qc))"

fun record_bit :: "bool list \<Rightarrow> instr \<Rightarrow> bool list \<Rightarrow> bool list" where
  "record_bit b (Measure q c) cl = cl[c := b ! q]"
| "record_bit b g cl = cl"

text \<open>
  The bit-string reported for an assignment \<open>b\<close>: the classical register after the
  measurements, classical bit \<open>0\<close> rightmost, as Qiskit prints it.
\<close>

definition readout :: "QuantumCircuit \<Rightarrow> bool list \<Rightarrow> string" where
  "readout qc b =
     map (\<lambda>bit. if bit then CHR ''1'' else CHR ''0'')
         (rev (fold (record_bit b) (measurements qc) (replicate (num_clbits qc) False)))"

text \<open>The outcomes that have a probability other than zero.\<close>

definition outcomes :: "QuantumCircuit \<Rightarrow> string list" where
  "outcomes qc =
     remdups (map (readout qc)
        (filter (\<lambda>b. final_state qc b \<noteq> 0) (List.n_lists (num_qubits qc) [False, True])))"

text \<open>The table \<^verbatim>\<open>get_counts()\<close> returns: each outcome with the number of shots that gave it.\<close>

type_synonym counts = "(string \<times> nat) list"

definition tally :: "string list \<Rightarrow> counts" where
  "tally memory = map (\<lambda>k. (k, count_list memory k)) (remdups memory)"

type_synonym backend = "QuantumCircuit \<Rightarrow> int \<Rightarrow> error + counts"

text \<open>
  Modelled from the spec: the noiseless simulator. Its random choices are the parameter
  \<open>rnd\<close>: shot \<open>k\<close> yields the possible outcome number \<open>rnd k\<close> (modulo their number),
  so "with probability one" reads "for every \<open>rnd\<close>". A count of shots below one gives
  no shot at all. A program that names a wire outside its registers, or measures before
  its last gate, is refused. For a program without classical bits the table is empty,
  as it is with the backend the notebook names (BasicAer's \<^verbatim>\<open>qasm_simulator\<close>), which
  records an outcome only when there is a classical register to read.
\<close>

definition ideal_simulator :: "(nat \<Rightarrow> nat) \<Rightarrow> backend" where
  "ideal_simulator rnd qc shots =
     (if \<not> runnable qc \<or> outcomes qc = [] then Inl QiskitError
      else if num_clbits qc = 0 then Inr []
      else Inr (tally (map (\<lambda>k. outcomes qc ! (rnd k mod length (outcomes qc)))
                           [0..<nat shots])))"

text \<open>
  \<^verbatim>\<open>Counts.most_frequent\<close>, with which the source decodes the table, is code of the
  Qiskit library and not of the source. Its documented contract: it returns the outcome
  with the greatest count and raises \<open>QiskitError\<close> on an empty table and when more than
  one outcome has the greatest count. The names follow the library's.
\<close>

definition most_frequent :: "counts \<Rightarrow> error + string" where
  "most_frequent cs =
     (if cs = [] then Inl QiskitError
      else let max_value = fold max (map snd cs) 0;
               max_values_counts = map fst (filter (\<lambda>kv. snd kv = max_value) cs)
           in if length max_values_counts \<noteq> 1 then Inl QiskitError
              else Inr (hd max_values_counts))"

section \<open>The Bernstein-Vazirani guesser\<close>

record QuantumGuesser =
  backend :: backend
  shots :: int

text \<open>
  The program \<^verbatim>\<open>guess\<close> builds around the encoded circuit \<open>code'\<close> (the source's
  \<^verbatim>\<open>code\<close>), call by call.
  \<^verbatim>\<open>qc.x(code.num_qubits - 1)\<close> on a circuit without qubits is rejected by Qiskit.
\<close>

definition recovery_program :: "QuantumCircuit \<Rightarrow> error + QuantumCircuit" where
  "recovery_program code' =
     (if num_qubits code' = 0 then Inl QiskitError
      else
        let qc = QuantumCircuit (num_qubits code') (num_clbits code');
            qc = qc_x qc (num_qubits code' - 1)
        in case qc_h qc [0..<num_qubits code'] of
             Inl e \<Rightarrow> Inl e
           | Inr qc \<Rightarrow>
               let qc = qc_barrier qc;
                   qc = qc_compose qc code';
                   qc = qc_barrier qc
               in case qc_h qc [0..<num_qubits code'] of
                    Inl e \<Rightarrow> Inl e
                  | Inr qc \<Rightarrow>
                      let qc = qc_barrier qc
                      in qc_measure qc [0..<num_qubits code' - 1] [0..<num_clbits code'])"

definition guess :: "QuantumGuesser \<Rightarrow> QuantumCircuit \<Rightarrow> error + string" where
  "guess self code' =
     (case recovery_program code' of
        Inl e \<Rightarrow> Inl e
      | Inr qc \<Rightarrow>
          (case backend self qc (shots self) of
             Inl e \<Rightarrow> Inl e
           | Inr cs \<Rightarrow> most_frequent cs))"

section \<open>The game\<close>

text \<open>
  What \<^verbatim>\<open>play\<close> prints, one constructor per \<^verbatim>\<open>print\<close> call of the source:
  \<^verbatim>\<open>attempt: n\<close>, \<^verbatim>\<open>incorrect guess\<close>, the hint line (\<open>True\<close> for "odd") and
  \<^verbatim>\<open>you found it, the code was: c\<close>. Prompts of \<^verbatim>\<open>input\<close> and the notebook's
  \<^verbatim>\<open>clear_output\<close> are left out.
\<close>

datatype line = Attempt int | IncorrectGuess | Hint bool | Found string

text \<open>
  The two local code sources, both subclasses of \<^verbatim>\<open>codemaker\<close>, and the two local
  guess sources.
\<close>

datatype setter = HumanSetter codemaker | QuantumSetter codemaker backend int

datatype guesser = HumanGuesser | QuantumGuesser QuantumGuesser

text \<open>
  The world \<^verbatim>\<open>play\<close> runs in: the lines still to be typed at the prompts, the lines
  printed so far, the setter objects by address, and the object the notebook's global
  name \<^verbatim>\<open>p1\<close> is bound to, if it is bound.
\<close>

record world =
  stdin :: "string list"
  stdout :: "line list"
  heap :: "nat \<Rightarrow> setter"
  global_p1 :: "nat option"

definition print :: "line \<Rightarrow> world \<Rightarrow> world" where
  "print l w = w\<lparr>stdout := stdout w @ [l]\<rparr>"

text \<open>\<^verbatim>\<open>HumanSetter.setCode\<close> reads one line for each of \<^verbatim>\<open>range(length)\<close>.\<close>

fun read_lines :: "nat \<Rightarrow> string list \<Rightarrow> (error + string list) \<times> string list" where
  "read_lines 0 ls = (Inr [], ls)"
| "read_lines (Suc n) [] = (Inl EOFError, [])"
| "read_lines (Suc n) (l # ls) =
     (case read_lines n ls of
        (Inl e, ls') \<Rightarrow> (Inl e, ls')
      | (Inr code', ls') \<Rightarrow> (Inr (l # code'), ls'))"

fun setter_code :: "setter \<Rightarrow> codemaker" where
  "setter_code (HumanSetter cm) = cm"
| "setter_code (QuantumSetter cm b n) = cm"

text \<open>The program of \<^verbatim>\<open>QuantumSetter.setCode\<close>: a Hadamard gate and a measurement per bit.\<close>

definition random_program :: "nat \<Rightarrow> error + QuantumCircuit" where
  "random_program len =
     (let qc = QuantumCircuit len len
      in case qc_h qc [0..<len] of
           Inl e \<Rightarrow> Inl e
         | Inr qc \<Rightarrow> qc_measure qc [0..<len] [0..<len])"

text \<open>
  \<^verbatim>\<open>setCode(length)\<close> of either setter. A negative length gives the human setter an
  empty range; Qiskit rejects a register of negative size, and the quantum setter's
  \<^verbatim>\<open>qc.h(range(0))\<close> is rejected for the length zero.
\<close>

fun setter_setCode :: "setter \<Rightarrow> int \<Rightarrow> string list \<Rightarrow> (error + setter) \<times> string list" where
  "setter_setCode (HumanSetter cm) len ls =
     (case read_lines (nat len) ls of
        (Inl e, ls') \<Rightarrow> (Inl e, ls')
      | (Inr code', ls') \<Rightarrow> (Inr (HumanSetter (setCode_list cm code')), ls'))"
| "setter_setCode (QuantumSetter cm b n) len ls =
     (if len < 0 then (Inl QiskitError, ls)
      else case random_program (nat len) of
        Inl e \<Rightarrow> (Inl e, ls)
      | Inr qc \<Rightarrow>
          (case b qc n of
             Inl e \<Rightarrow> (Inl e, ls)
           | Inr cs \<Rightarrow>
               (case most_frequent cs of
                  Inl e \<Rightarrow> (Inl e, ls)
                | Inr c \<Rightarrow> (Inr (QuantumSetter (cm\<lparr>codemaker.code := c\<rparr>) b n), ls))))"

text \<open>
  \<^verbatim>\<open>HumanGuesser.guess\<close> asks again until the typed line has the length of the
  classical register. With an empty register the loop body never runs and the
  \<^verbatim>\<open>return\<close> meets an unbound local name.
\<close>

fun human_guess :: "nat \<Rightarrow> string list \<Rightarrow> (error + string) \<times> string list" where
  "human_guess len [] = (Inl EOFError, [])"
| "human_guess len (l # ls) = (if length l \<noteq> len then human_guess len ls else (Inr l, ls))"

fun guesser_guess ::
  "guesser \<Rightarrow> QuantumCircuit \<Rightarrow> string list \<Rightarrow> (error + string) \<times> string list" where
  "guesser_guess HumanGuesser code' ls =
     (if 0 \<noteq> num_clbits code' then human_guess (num_clbits code') ls else (Inl NameError, ls))"
| "guesser_guess (QuantumGuesser g) code' ls = (guess g code', ls)"

record Game =
  p1 :: nat
  p2 :: guesser
  encoder :: QuantumEncoder

text \<open>
  The \<^verbatim>\<open>while (not correct)\<close> loop of \<^verbatim>\<open>play\<close>. It has no bound on the number of
  attempts, so it need not return: the value is \<open>None\<close> then.
\<close>

partial_function (option) play_loop ::
  "shell \<Rightarrow> Game \<Rightarrow> QuantumEncoder \<Rightarrow> QuantumCircuit \<Rightarrow> int \<Rightarrow> hint \<Rightarrow> bool \<Rightarrow> world
     \<Rightarrow> ((error + int) \<times> world) option" where
  "play_loop sh self enc code' attempts hint' correct w =
     (if \<not> correct then
        (let w = print IncorrectGuess w;
             w = print (Hint (truthy hint')) w;
             attempts = attempts + 1;
             w = print (Attempt attempts) w
         in case guesser_guess (p2 self) code' (stdin w) of
              (Inl e, ls) \<Rightarrow> Some (Inl e, w\<lparr>stdin := ls\<rparr>)
            | (Inr guess', ls) \<Rightarrow>
                (case check sh enc guess' of
                   Inl e \<Rightarrow> Some (Inl e, w\<lparr>stdin := ls\<rparr>)
                 | Inr (hint', correct) \<Rightarrow>
                     play_loop sh self enc code' attempts hint' correct (w\<lparr>stdin := ls\<rparr>)))
      else Some (Inr attempts, w))"

declare play_loop.simps [code]

text \<open>
  \<^verbatim>\<open>Game.play\<close>. The number typed at the first prompt is the argument \<open>len\<close>. The
  setter \<^verbatim>\<open>self.p1\<close> sets its code, the encoder encodes what \<^verbatim>\<open>self.p1.getCode()\<close>
  returns, and the guesser is asked until \<open>check\<close> reports a match. The last line
  printed then reads the code from \<^verbatim>\<open>p1.getCode()\<close>, where \<^verbatim>\<open>p1\<close> is the global
  name of the notebook, not the field \<^verbatim>\<open>self.p1\<close>; an unbound name is a \<open>NameError\<close>.
\<close>

definition play :: "shell \<Rightarrow> Game \<Rightarrow> int \<Rightarrow> world \<Rightarrow> ((error + unit) \<times> world) option" where
  "play sh self len w =
     (case setter_setCode (heap w (p1 self)) len (stdin w) of
        (Inl e, ls) \<Rightarrow> Some (Inl e, w\<lparr>stdin := ls\<rparr>)
      | (Inr s, ls) \<Rightarrow>
          (let w = w\<lparr>stdin := ls, heap := (heap w)(p1 self := s)\<rparr>;
               (code', enc) =
                  encode (encoder self) (fst (getCode (setter_code (heap w (p1 self)))));
               attempts = 1;
               w = print (Attempt attempts) w
           in case guesser_guess (p2 self) code' (stdin w) of
                (Inl e, ls) \<Rightarrow> Some (Inl e, w\<lparr>stdin := ls\<rparr>)
              | (Inr guess', ls) \<Rightarrow>
                  (case check sh enc guess' of
                     Inl e \<Rightarrow> Some (Inl e, w\<lparr>stdin := ls\<rparr>)
                   | Inr (hint', correct) \<Rightarrow>
                       (case play_loop sh self enc code' attempts hint' correct
                               (w\<lparr>stdin := ls\<rparr>) of
                          None \<Rightarrow> None
                        | Some (Inl e, w) \<Rightarrow> Some (Inl e, w)
                        | Some (Inr attempts, w) \<Rightarrow>
                            (case global_p1 w of
                               None \<Rightarrow> Some (Inl NameError, w)
                             | Some a \<Rightarrow>
                                 Some (Inr (),
                                   print (Found (fst (getCode (setter_code (heap w a))))) w))))))"

text \<open>
  A world with two setter objects: the one at address \<open>0\<close>, to which the global name
  \<^verbatim>\<open>p1\<close> is bound, holds the code \<open>0000\<close> from an earlier game; all others are fresh.
  The typed lines are four bits for a human setter and three guesses.
\<close>

definition two_setters :: world where
  "two_setters =
     \<lparr>stdin = [''1'', ''0'', ''1'', ''0'', ''0001'', ''10'', ''1010''], stdout = [],
      heap = (\<lambda>a. HumanSetter \<lparr>codemaker.code = (if a = 0 then ''0000'' else '''')\<rparr>),
      global_p1 = Some 0\<rparr>"

section \<open>Notions used in the proofs\<close>

text \<open>A bit-string: every character is \<open>0\<close> or \<open>1\<close>.\<close>

definition bitstring :: "string \<Rightarrow> bool" where
  "bitstring s \<longleftrightarrow> (\<forall>v \<in> set s. v = CHR ''0'' \<or> v = CHR ''1'')"

text \<open>The instructions \<open>encode\<close> appends for a list of indexed characters.\<close>

definition oracle_gates :: "nat \<Rightarrow> (nat \<times> char) list \<Rightarrow> instr list" where
  "oracle_gates L ivs = concat (map (\<lambda>(i, v). if v = CHR ''1'' then [CX i L] else []) ivs)"

text \<open>
  The parity the oracle adds to the extra bit: whether the number of indexed \<open>1\<close>
  characters whose bit is set in the assignment \<open>b\<close> is odd.
\<close>

definition kick :: "(nat \<times> char) list \<Rightarrow> bool list \<Rightarrow> bool" where
  "kick ivs b = odd (length (filter (\<lambda>(i, v). v = CHR ''1'' \<and> b ! i) ivs))"

text \<open>
  Product states: qubit \<open>i\<close> contributes the factor \<open>fst (fs ! i)\<close> when its bit is clear
  and \<open>snd (fs ! i)\<close> when it is set.
\<close>

definition pick :: "int \<times> int \<Rightarrow> bool \<Rightarrow> int" where
  "pick p v = (if v then snd p else fst p)"

definition prod_state :: "(int \<times> int) list \<Rightarrow> state" where
  "prod_state fs =
     (\<lambda>b. if length b = length fs then (\<Prod>i<length fs. pick (fs ! i) (b ! i)) else 0)"

definition others :: "(int \<times> int) list \<Rightarrow> bool list \<Rightarrow> nat \<Rightarrow> int" where
  "others fs b q = (\<Prod>i\<in>{..<length fs} - {q}. pick (fs ! i) (b ! i))"

definition had :: "int \<times> int \<Rightarrow> int \<times> int" where
  "had p = (fst p + snd p, fst p - snd p)"

definition neg :: "int \<times> int \<Rightarrow> int \<times> int" where
  "neg p = (fst p, - snd p)"

definition kickback :: "(nat \<times> char) list \<Rightarrow> (int \<times> int) list \<Rightarrow> (int \<times> int) list" where
  "kickback ivs fs =
     fold (\<lambda>(i, v) fs. if v = CHR ''1'' then fs[i := neg (fs ! i)] else fs) ivs fs"

text \<open>
  What \<open>guess\<close> puts before and after the encoded circuit; both depend on the sizes of
  its registers only.
\<close>

definition recovery_prefix :: "nat \<Rightarrow> instr list" where
  "recovery_prefix nq = [X (nq - 1)] @ map H [0..<nq] @ [Barrier]"

definition recovery_suffix :: "nat \<Rightarrow> nat \<Rightarrow> instr list" where
  "recovery_suffix nq nc =
     [Barrier] @ map H [0..<nq] @ [Barrier]
       @ map (\<lambda>(q, c). Measure q c) (zip [0..<nq - 1] [0..<nc])"

text \<open>The recovery program for a secret \<open>S\<close>, written out.\<close>

definition bv_gates :: "string \<Rightarrow> instr list" where
  "bv_gates S = [X (length S)] @ map H [0..<Suc (length S)] @ [Barrier]
      @ oracle_gates (length S) (enumerate 0 (rev S)) @ [Barrier]
      @ map H [0..<Suc (length S)] @ [Barrier]"

definition bv_measures :: "string \<Rightarrow> instr list" where
  "bv_measures S = map (\<lambda>(q, c). Measure q c) (zip [0..<length S] [0..<length S])"

definition bv_program :: "string \<Rightarrow> QuantumCircuit" where
  "bv_program S = \<lparr>num_qubits = Suc (length S), num_clbits = length S,
            data = bv_gates S @ bv_measures S\<rparr>"

definition bv_final :: "string \<Rightarrow> (int \<times> int) list" where
  "bv_final S = map had (kickback (enumerate 0 (rev S))
      (map had ((replicate (Suc (length S)) (1, 0))[length S := (0, 1)])))"

definition bv_answer :: "string \<Rightarrow> bool list" where
  "bv_answer S = map (\<lambda>v. v = CHR ''1'') (rev S) @ [True]"

section \<open>Properties of the codemaker\<close>

lemma setCode_fold:
  "codemaker.code (fold (\<lambda>i s. s\<lparr>codemaker.code := codemaker.code s @ [c ! i]\<rparr>) [0..<n] s0)
     = codemaker.code s0 @ map ((!) c) [0..<n]"
  by (induction n arbitrary: s0) simp_all

lemma setCode_code: "codemaker.code (setCode self c) = c"
  by (simp add: setCode_def setCode_fold map_nth)

text \<open>
  Claim C10. For every string \<open>c\<close> (in particular every bit-string), \<open>getCode\<close> after
  \<open>setCode c\<close> returns \<open>c\<close>; \<open>getCode\<close> itself leaves the object as it was, so among the
  codemaker's methods only \<open>setCode\<close> changes the stored code.
\<close>

theorem setCode_getCode_roundtrip:
  "fst (getCode (setCode self c)) = c \<and> snd (getCode self) = self"
  by (simp add: getCode_def setCode_code)

section \<open>Properties of check\<close>

lemma check_loop_error:
  "check_loop sh input i vs h = Inl e \<Longrightarrow> e = IndexError"
  by (induction vs arbitrary: i h) (auto split: if_splits)

lemma check_loop_fails_iff:
  "(\<exists>e. check_loop sh input i vs h = Inl e)
     \<longleftrightarrow> (\<exists>j < length vs. vs ! j = CHR ''1'' \<and> length input \<le> i + j)"
proof (induction vs arbitrary: i h)
  case Nil
  show ?case by simp
next
  case (Cons v vs)
  have shift: "(\<exists>j < length (v # vs). (v # vs) ! j = CHR ''1'' \<and> length input \<le> i + j)
      \<longleftrightarrow> (v = CHR ''1'' \<and> length input \<le> i)
          \<or> (\<exists>j < length vs. vs ! j = CHR ''1'' \<and> length input \<le> Suc i + j)"
    (is "?L \<longleftrightarrow> ?R")
  proof
    assume ?L
    then obtain j where j: "j < length (v # vs)" "(v # vs) ! j = CHR ''1''" "length input \<le> i + j"
      by blast
    show ?R
    proof (cases j)
      case 0
      with j show ?thesis by simp
    next
      case (Suc k)
      with j have "k < length vs \<and> vs ! k = CHR ''1'' \<and> length input \<le> Suc i + k" by simp
      then show ?thesis by blast
    qed
  next
    assume ?R
    then show ?L
    proof
      assume "v = CHR ''1'' \<and> length input \<le> i"
      then have "0 < length (v # vs) \<and> (v # vs) ! 0 = CHR ''1'' \<and> length input \<le> i + 0" by simp
      then show ?L by blast
    next
      assume "\<exists>j < length vs. vs ! j = CHR ''1'' \<and> length input \<le> Suc i + j"
      then obtain k where "k < length vs" "vs ! k = CHR ''1''" "length input \<le> Suc i + k" by blast
      then have "Suc k < length (v # vs) \<and> (v # vs) ! Suc k = CHR ''1'' \<and> length input \<le> i + Suc k"
        by simp
      then show ?L by blast
    qed
  qed
  show ?case
    unfolding shift using Cons.IH [of "Suc i"] by (auto split: if_splits)
qed

lemma check_returns_iff:
  "(\<exists>h. check sh self input = Inr (h, QuantumEncoder.code self = input))
     \<longleftrightarrow> \<not> (\<exists>j < length (QuantumEncoder.code self).
              QuantumEncoder.code self ! j = CHR ''1'' \<and> length input \<le> j)"
  using check_loop_fails_iff [of sh input 0 "QuantumEncoder.code self" "PyBool False"]
  by (cases "check_loop sh input 0 (QuantumEncoder.code self) (PyBool False)")
     (auto simp: check_def)

lemma check_fails_iff:
  "check sh self input = Inl IndexError
     \<longleftrightarrow> (\<exists>j < length (QuantumEncoder.code self).
              QuantumEncoder.code self ! j = CHR ''1'' \<and> length input \<le> j)"
  using check_loop_fails_iff [of sh input 0 "QuantumEncoder.code self" "PyBool False"]
        check_loop_error [of sh input 0 "QuantumEncoder.code self" "PyBool False"]
  by (cases "check_loop sh input 0 (QuantumEncoder.code self) (PyBool False)")
     (auto simp: check_def)

text \<open>
  Claim C1. For a secret \<open>S\<close> (the encoder's stored code) and a guess \<open>G\<close> of the same
  length, \<open>check G\<close> returns, and its \<open>matched\<close> component is true exactly when \<open>G = S\<close>.
\<close>

theorem check_matched_iff_equal:
  assumes "length G = length (QuantumEncoder.code self)"
  shows "\<exists>h m. check sh self G = Inr (h, m) \<and> (m \<longleftrightarrow> G = QuantumEncoder.code self)"
proof -
  have "\<not> (\<exists>j < length (QuantumEncoder.code self).
              QuantumEncoder.code self ! j = CHR ''1'' \<and> length G \<le> j)"
    using assms by auto
  then obtain h where "check sh self G = Inr (h, QuantumEncoder.code self = G)"
    using check_returns_iff [of sh self G] by blast
  then show ?thesis by auto
qed

theorem check_matched_iff_equal_witness:
  "length ''0001'' = length (QuantumEncoder.code \<lparr>QuantumEncoder.code = ''1010''\<rparr>)
   \<and> (\<exists>h m. check no_such_command \<lparr>QuantumEncoder.code = ''1010''\<rparr> ''0001'' = Inr (h, m)
        \<and> (m \<longleftrightarrow> ''0001'' = QuantumEncoder.code \<lparr>QuantumEncoder.code = ''1010''\<rparr>))"
  using check_matched_iff_equal [of "''0001''" "\<lparr>QuantumEncoder.code = ''1010''\<rparr>" no_such_command]
  by simp

lemma check_loop_hint:
  "check_loop sh input i vs h = Inr h' \<Longrightarrow>
     h' = (if \<exists>j < length vs. vs ! j = CHR ''1'' \<and> input ! (i + j) = CHR ''1''
           then SList (sh ''odd'') else h)"
proof (induction vs arbitrary: i h)
  case Nil
  then show ?case by simp
next
  case (Cons v vs)
  let ?hit = "\<lambda>i vs. \<exists>j < length vs. vs ! j = CHR ''1'' \<and> input ! (i + j) = CHR ''1''"
  have shift: "?hit i (v # vs) \<longleftrightarrow> (v = CHR ''1'' \<and> input ! i = CHR ''1'') \<or> ?hit (Suc i) vs"
    (is "?L \<longleftrightarrow> ?R")
  proof
    assume ?L
    then obtain j where j: "j < length (v # vs)" "(v # vs) ! j = CHR ''1''"
        "input ! (i + j) = CHR ''1''"
      by blast
    show ?R
    proof (cases j)
      case 0
      with j show ?thesis by simp
    next
      case (Suc k)
      with j have "k < length vs \<and> vs ! k = CHR ''1'' \<and> input ! (Suc i + k) = CHR ''1''"
        by simp
      then show ?thesis by blast
    qed
  next
    assume ?R
    then show ?L
    proof
      assume "v = CHR ''1'' \<and> input ! i = CHR ''1''"
      then have "0 < length (v # vs) \<and> (v # vs) ! 0 = CHR ''1'' \<and> input ! (i + 0) = CHR ''1''"
        by simp
      then show ?L by blast
    next
      assume "?hit (Suc i) vs"
      then obtain k where "k < length vs" "vs ! k = CHR ''1''" "input ! (Suc i + k) = CHR ''1''"
        by blast
      then have "Suc k < length (v # vs) \<and> (v # vs) ! Suc k = CHR ''1''
          \<and> input ! (i + Suc k) = CHR ''1''"
        by simp
      then show ?L by blast
    qed
  qed
  show ?case
  proof (cases "v = CHR ''1''")
    case False
    with Cons.prems have "check_loop sh input (Suc i) vs h = Inr h'" by simp
    from Cons.IH [OF this] False show ?thesis unfolding shift by simp
  next
    case True
    with Cons.prems have inb: "i < length input"
      by (auto split: if_splits)
    show ?thesis
    proof (cases "input ! i = CHR ''1''")
      case hit: True
      with True inb Cons.prems have "check_loop sh input (Suc i) vs (SList (sh ''odd'')) = Inr h'"
        by simp
      from Cons.IH [OF this] True hit show ?thesis unfolding shift by simp
    next
      case miss: False
      with True inb Cons.prems have "check_loop sh input (Suc i) vs h = Inr h'"
        by simp
      from Cons.IH [OF this] True miss show ?thesis unfolding shift by simp
    qed
  qed
qed

text \<open>
  What the hint of \<open>check\<close> is: the initial \<open>False\<close> when no position has a \<open>1\<close> in both
  strings, and otherwise the captured output of the shell command, whatever the number of
  such positions.
\<close>

lemma check_hint:
  assumes "check sh self input = Inr (h, m)"
  shows "h = (if \<exists>j < length (QuantumEncoder.code self).
                  QuantumEncoder.code self ! j = CHR ''1'' \<and> input ! j = CHR ''1''
              then SList (sh ''odd'') else PyBool False)"
proof -
  from assms have "check_loop sh input 0 (QuantumEncoder.code self) (PyBool False) = Inr h"
    by (auto simp: check_def split: sum.splits)
  from check_loop_hint [OF this] show ?thesis by simp
qed

text \<open>
  Claim C2 (the code departs from it). With two common \<open>1\<close> positions the hint should be
  "even" and with one it should be "odd"; the code returns the same value for both, the
  output of the shell command, which is truthy (printed as "odd") whenever that command
  prints anything. The spec's own example, secret \<open>1010\<close> and guess \<open>0001\<close>, has no common
  position and yields \<open>False\<close>.
\<close>

theorem check_hint_ignores_parity:
  "check sh \<lparr>QuantumEncoder.code = ''11''\<rparr> ''11'' = Inr (SList (sh ''odd''), True)
   \<and> check sh \<lparr>QuantumEncoder.code = ''10''\<rparr> ''10'' = Inr (SList (sh ''odd''), True)
   \<and> overlap ''11'' ''11'' = 2 \<and> overlap ''10'' ''10'' = 1
   \<and> truthy (SList (no_such_command ''odd''))
   \<and> check sh \<lparr>QuantumEncoder.code = ''1010''\<rparr> ''0001'' = Inr (PyBool False, False)"
  by (simp add: check_def overlap_def no_such_command_def)

text \<open>
  Claim C5 as stated fails: a guess shorter than the secret is answered normally, with
  \<open>matched = False\<close>; no length error is raised.
\<close>

theorem check_length_mismatch_counterexample:
  "length ''1'' \<noteq> length (QuantumEncoder.code \<lparr>QuantumEncoder.code = ''10''\<rparr>)
   \<and> check no_such_command \<lparr>QuantumEncoder.code = ''10''\<rparr> ''1''
       = Inr (SList [''/bin/sh: 1: odd: not found''], False)"
  by (simp add: check_def no_such_command_def)

text \<open>
  Claim C5, amended. \<open>check\<close> validates no length. When the lengths are equal it returns
  normally. When they differ it either returns normally with \<open>matched = False\<close>, or fails
  with Python's \<open>IndexError\<close>; the latter happens exactly when the secret has a \<open>1\<close> at an
  index that the guess does not have.
\<close>

theorem check_length_behaviour:
  "(length G = length (QuantumEncoder.code self) \<longrightarrow>
      (\<exists>h m. check sh self G = Inr (h, m)))
   \<and> (length G \<noteq> length (QuantumEncoder.code self) \<longrightarrow>
      (if \<exists>j < length (QuantumEncoder.code self).
             QuantumEncoder.code self ! j = CHR ''1'' \<and> length G \<le> j
       then check sh self G = Inl IndexError
       else \<exists>h. check sh self G = Inr (h, False)))"
proof (intro conjI impI)
  assume "length G = length (QuantumEncoder.code self)"
  then have "\<not> (\<exists>j < length (QuantumEncoder.code self).
              QuantumEncoder.code self ! j = CHR ''1'' \<and> length G \<le> j)"
    by auto
  then show "\<exists>h m. check sh self G = Inr (h, m)"
    using check_returns_iff [of sh self G] by blast
next
  assume ne: "length G \<noteq> length (QuantumEncoder.code self)"
  then have "QuantumEncoder.code self \<noteq> G" by auto
  then show "if \<exists>j < length (QuantumEncoder.code self).
             QuantumEncoder.code self ! j = CHR ''1'' \<and> length G \<le> j
       then check sh self G = Inl IndexError
       else \<exists>h. check sh self G = Inr (h, False)"
    using check_returns_iff [of sh self G] check_fails_iff [of sh self G] by simp
qed

theorem check_length_behaviour_witness:
  "length ''01'' = length (QuantumEncoder.code \<lparr>QuantumEncoder.code = ''10''\<rparr>)
   \<and> (\<exists>h m. check no_such_command \<lparr>QuantumEncoder.code = ''10''\<rparr> ''01'' = Inr (h, m))
   \<and> length ''0'' \<noteq> length (QuantumEncoder.code \<lparr>QuantumEncoder.code = ''01''\<rparr>)
   \<and> check no_such_command \<lparr>QuantumEncoder.code = ''01''\<rparr> ''0'' = Inl IndexError
   \<and> length ''011'' \<noteq> length (QuantumEncoder.code \<lparr>QuantumEncoder.code = ''01''\<rparr>)
   \<and> (\<exists>h. check no_such_command \<lparr>QuantumEncoder.code = ''01''\<rparr> ''011'' = Inr (h, False))"
  using check_length_behaviour [of "''01''" "\<lparr>QuantumEncoder.code = ''10''\<rparr>" no_such_command]
        check_length_behaviour [of "''0''" "\<lparr>QuantumEncoder.code = ''01''\<rparr>" no_such_command]
        check_length_behaviour [of "''011''" "\<lparr>QuantumEncoder.code = ''01''\<rparr>" no_such_command]
  by (simp add: check_def)

section \<open>The oracle as a reversible classical circuit\<close>

lemma oracle_gates_simps [simp]:
  "oracle_gates L [] = []"
  "oracle_gates L ((i, v) # ivs) = (if v = CHR ''1'' then CX i L # oracle_gates L ivs else oracle_gates L ivs)"
  by (simp_all add: oracle_gates_def)

lemma encode_fold:
  "fold (\<lambda>(i, v) qc. if v = CHR ''1'' then qc_cx qc i L else qc) ivs qc
     = qc\<lparr>data := data qc @ oracle_gates L ivs\<rparr>"
  by (induction ivs arbitrary: qc) (auto simp: qc_cx_def)

lemma encode_circuit:
  "fst (encode self c) =
     \<lparr>num_qubits = length c + 1, num_clbits = length c,
      data = oracle_gates (length c) (enumerate 0 (rev c))\<rparr>"
  by (simp add: encode_def Let_def encode_fold QuantumCircuit_def)

lemma kick_cong:
  "\<forall>p \<in> set ivs. b ! fst p = b' ! fst p \<Longrightarrow> kick ivs b = kick ivs b'"
  unfolding kick_def
  by (rule arg_cong [where f = "\<lambda>xs. odd (length xs)"], rule filter_cong) auto

lemma kick_Cons:
  "kick ((i, v) # ivs) b = (kick ivs b \<noteq> (v = CHR ''1'' \<and> b ! i))"
  by (auto simp: kick_def)

lemma flips_oracle:
  assumes "\<forall>p \<in> set ivs. fst p < L" and "L < length b"
  shows "flips (oracle_gates L ivs) b = Some (b[L := (b ! L \<noteq> kick ivs b)])"
  using assms
proof (induction ivs arbitrary: b)
  case Nil
  then show ?case by (simp add: kick_def)
next
  case (Cons iv ivs)
  obtain i v where iv: "iv = (i, v)" by (cases iv)
  have iL: "i < L" using Cons.prems(1) iv by simp
  have rest: "\<forall>p \<in> set ivs. fst p < L" using Cons.prems(1) by simp
  show ?case
  proof (cases "v = CHR ''1'' \<and> b ! i")
    case True
    let ?b1 = "b[L := \<not> b ! L]"
    have k: "kick ivs ?b1 = kick ivs b"
      by (rule kick_cong) (use rest in fastforce)
    have "flips (oracle_gates L ivs) ?b1 = Some (?b1[L := (?b1 ! L \<noteq> kick ivs ?b1)])"
      by (rule Cons.IH) (use rest Cons.prems(2) in auto)
    then show ?thesis using True iv k Cons.prems(2) by (auto simp: kick_Cons)
  next
    case False
    have "flips (oracle_gates L ivs) b = Some (b[L := (b ! L \<noteq> kick ivs b)])"
      by (rule Cons.IH) (use rest Cons.prems(2) in auto)
    then show ?thesis using False iv by (auto simp: kick_Cons)
  qed
qed

lemma wires_oracle:
  "\<forall>p \<in> set ivs. fst p < L \<Longrightarrow> list_all (wires_ok (Suc L) nc) (oracle_gates L ivs)"
  by (induction ivs) (auto simp: less_Suc_eq)

lemma enumerate_bound: "\<forall>p \<in> set (enumerate 0 xs). fst p < length xs"
  by (auto simp: in_set_enumerate_eq)

lemma apply_fragment_encode:
  assumes "length b = length S + 1"
  shows "apply_fragment (fst (encode self S)) b
     = Some (b[length S := (b ! length S \<noteq> kick (enumerate 0 (rev S)) b)])"
proof -
  have bound: "\<forall>p \<in> set (enumerate 0 (rev S)). fst p < length S"
    using enumerate_bound [of "rev S"] by simp
  show ?thesis
    using assms wires_oracle [OF bound] flips_oracle [OF bound, of b]
    by (simp add: apply_fragment_def encode_circuit)
qed

text \<open>
  Claim C4. The fragment \<open>encode\<close> builds for a secret of length \<open>L\<close> is its own
  inverse: applied to any assignment of its \<open>L + 1\<close> bits it yields an assignment, and
  applied to that one it yields the original again.
\<close>

theorem encode_self_inverse:
  assumes "length b = length S + 1"
  shows "\<exists>b'. apply_fragment (fst (encode self S)) b = Some b'
           \<and> apply_fragment (fst (encode self S)) b' = Some b"
proof -
  let ?L = "length S"
  let ?ivs = "enumerate 0 (rev S)"
  let ?b' = "b[?L := (b ! ?L \<noteq> kick ?ivs b)]"
  have 1: "apply_fragment (fst (encode self S)) b = Some ?b'"
    using assms by (rule apply_fragment_encode)
  have k: "kick ?ivs ?b' = kick ?ivs b"
    by (rule kick_cong) (use enumerate_bound [of "rev S"] in fastforce)
  have "apply_fragment (fst (encode self S)) ?b' = Some (?b'[?L := (?b' ! ?L \<noteq> kick ?ivs ?b')])"
    by (rule apply_fragment_encode) (use assms in simp)
  also have "?b'[?L := (?b' ! ?L \<noteq> kick ?ivs ?b')] = b"
    using assms k by (auto simp: list_update_same_conv)
  finally show ?thesis using 1 by blast
qed

theorem encode_self_inverse_witness:
  "length [True, False, True, True, False] = length ''1010'' + 1
   \<and> (\<exists>b'. apply_fragment (fst (encode QuantumEncoder_init ''1010'')) [True, False, True, True, False]
              = Some b'
          \<and> apply_fragment (fst (encode QuantumEncoder_init ''1010'')) b'
              = Some [True, False, True, True, False])"
  using encode_self_inverse [of "[True, False, True, True, False]" "''1010''" QuantumEncoder_init]
  by simp

section \<open>Product states under the gates\<close>

lemma prod_state_update_arg:
  assumes "q < length fs" "length b = length fs"
  shows "prod_state fs (b[q := v]) = pick (fs ! q) v * others fs b q"
proof -
  have "(\<Prod>i<length fs. pick (fs ! i) (b[q := v] ! i))
      = pick (fs ! q) (b[q := v] ! q) * (\<Prod>i\<in>{..<length fs} - {q}. pick (fs ! i) (b[q := v] ! i))"
    using assms by (intro prod.remove) auto
  also have "(\<Prod>i\<in>{..<length fs} - {q}. pick (fs ! i) (b[q := v] ! i)) = others fs b q"
    unfolding others_def by (rule prod.cong) auto
  finally show ?thesis using assms by (simp add: prod_state_def)
qed

lemma prod_state_split:
  assumes "q < length fs" "length b = length fs"
  shows "prod_state fs b = pick (fs ! q) (b ! q) * others fs b q"
  using prod_state_update_arg [OF assms, of "b ! q"] by simp

lemma prod_state_update_fs:
  assumes "q < length fs" "length b = length fs"
  shows "prod_state (fs[q := p]) b = pick p (b ! q) * others fs b q"
proof -
  have "(\<Prod>i<length fs. pick (fs[q := p] ! i) (b ! i))
      = pick (fs[q := p] ! q) (b ! q) * (\<Prod>i\<in>{..<length fs} - {q}. pick (fs[q := p] ! i) (b ! i))"
    using assms by (intro prod.remove) auto
  also have "(\<Prod>i\<in>{..<length fs} - {q}. pick (fs[q := p] ! i) (b ! i)) = others fs b q"
    unfolding others_def by (rule prod.cong) auto
  finally show ?thesis using assms by (simp add: prod_state_def)
qed

lemma prod_state_length: "length b \<noteq> length fs \<Longrightarrow> prod_state fs b = 0"
  by (simp add: prod_state_def)

lemma zero_state_prod: "zero_state n = prod_state (replicate n (1, 0))"
proof
  fix b
  show "zero_state n b = prod_state (replicate n (1, 0)) b"
  proof (cases "length b = n")
    case False
    then show ?thesis by (auto simp: zero_state_def prod_state_def)
  next
    case True
    have "(b = replicate n False) \<longleftrightarrow> (\<forall>i<n. \<not> b ! i)"
      using True by (auto simp: list_eq_iff_nth_eq)
    moreover have "(\<Prod>i<n. pick (replicate n (1, 0) ! i) (b ! i)) = (if \<forall>i<n. \<not> b ! i then 1 else 0)"
    proof (cases "\<forall>i<n. \<not> b ! i")
      case True
      then have "(\<Prod>i<n. pick (replicate n (1, 0) ! i) (b ! i)) = (\<Prod>i<n. 1)"
        by (intro prod.cong) (auto simp: pick_def)
      then show ?thesis using True by simp
    next
      case False
      then obtain i where "i < n" "b ! i" by blast
      then have "\<exists>i\<in>{..<n}. pick (replicate n (1, 0) ! i) (b ! i) = 0"
        by (auto simp: pick_def)
      then have "(\<Prod>i<n. pick (replicate n (1, 0) ! i) (b ! i)) = 0"
        by (simp add: prod_zero_iff)
      moreover have "\<not> (\<forall>i<n. \<not> b ! i)" using False .
      ultimately show ?thesis by (simp only: if_False)
    qed
    ultimately show ?thesis using True by (simp add: zero_state_def prod_state_def)
  qed
qed

lemma apply_X:
  assumes "q < length fs"
  shows "apply_gate (X q) (prod_state fs) = prod_state (fs[q := (snd (fs ! q), fst (fs ! q))])"
proof
  fix b
  show "apply_gate (X q) (prod_state fs) b = prod_state (fs[q := (snd (fs ! q), fst (fs ! q))]) b"
  proof (cases "length b = length fs")
    case False
    then show ?thesis by (simp add: prod_state_length)
  next
    case True
    show ?thesis
      using prod_state_update_arg [OF assms True] prod_state_update_fs [OF assms True]
      by (simp add: pick_def)
  qed
qed

lemma apply_H:
  assumes "q < length fs"
  shows "apply_gate (H q) (prod_state fs) = prod_state (fs[q := had (fs ! q)])"
proof
  fix b
  show "apply_gate (H q) (prod_state fs) b = prod_state (fs[q := had (fs ! q)]) b"
  proof (cases "length b = length fs")
    case False
    then show ?thesis by (simp add: prod_state_length)
  next
    case True
    show ?thesis
      using prod_state_update_arg [OF assms True] prod_state_update_fs [OF assms True]
      by (simp add: pick_def had_def algebra_simps)
  qed
qed

lemma apply_CX:
  assumes "c < length fs" "t < length fs" "snd (fs ! t) = - fst (fs ! t)"
  shows "apply_gate (CX c t) (prod_state fs) = prod_state (fs[c := (fst (fs ! c), - snd (fs ! c))])"
proof
  fix b
  show "apply_gate (CX c t) (prod_state fs) b = prod_state (fs[c := (fst (fs ! c), - snd (fs ! c))]) b"
  proof (cases "length b = length fs")
    case False
    then show ?thesis by (simp add: prod_state_length)
  next
    case True
    have flipt: "prod_state fs (b[t := \<not> b ! t]) = - prod_state fs b"
      using prod_state_update_arg [OF assms(2) True, of "\<not> b ! t"]
            prod_state_split [OF assms(2) True] assms(3)
      by (simp add: pick_def)
    have "prod_state (fs[c := (fst (fs ! c), - snd (fs ! c))]) b
        = (if b ! c then - prod_state fs b else prod_state fs b)"
      using prod_state_update_fs [OF assms(1) True, of "(fst (fs ! c), - snd (fs ! c))"]
            prod_state_split [OF assms(1) True]
      by (simp add: pick_def)
    then show ?thesis using flipt by simp
  qed
qed

lemma H_layer:
  "k \<le> length fs \<Longrightarrow>
     fold apply_gate (map H [0..<k]) (prod_state fs) = prod_state (map had (take k fs) @ drop k fs)"
proof (induction k)
  case 0
  then show ?case by simp
next
  case (Suc k)
  then have k: "k < length fs" by simp
  have upd: "(map had (take k fs) @ drop k fs)[k := had ((map had (take k fs) @ drop k fs) ! k)]
      = map had (take (Suc k) fs) @ drop (Suc k) fs"
    using k by (intro nth_equalityI) (auto simp: nth_list_update nth_append less_Suc_eq)
  show ?case
    using Suc.IH k apply_H [of k "map had (take k fs) @ drop k fs"] upd by simp
qed

lemma kickback_simps [simp]:
  "kickback [] fs = fs"
  "kickback ((i, v) # ivs) fs = kickback ivs (if v = CHR ''1'' then fs[i := neg (fs ! i)] else fs)"
  by (simp_all add: kickback_def)

lemma oracle_kickback:
  assumes "\<forall>p \<in> set ivs. fst p < L" "length fs = Suc L" "snd (fs ! L) = - fst (fs ! L)"
  shows "fold apply_gate (oracle_gates L ivs) (prod_state fs) = prod_state (kickback ivs fs)"
  using assms
proof (induction ivs arbitrary: fs)
  case Nil
  show ?case by simp
next
  case (Cons iv ivs)
  obtain i v where iv: "iv = (i, v)" by (cases iv)
  have iL: "i < L" using Cons.prems(1) iv by simp
  have rest: "\<forall>p \<in> set ivs. fst p < L" using Cons.prems(1) by simp
  show ?case
  proof (cases "v = CHR ''1''")
    case False
    then show ?thesis using iv Cons.IH [OF rest Cons.prems(2,3)] by simp
  next
    case True
    let ?fs = "fs[i := neg (fs ! i)]"
    have step: "apply_gate (CX i L) (prod_state fs) = prod_state ?fs"
      using apply_CX [of i fs L] iL Cons.prems(2,3) by (simp add: neg_def)
    have "fold apply_gate (oracle_gates L ivs) (prod_state ?fs) = prod_state (kickback ivs ?fs)"
      by (rule Cons.IH [OF rest]) (use iL Cons.prems(2,3) in auto)
    then show ?thesis using True iv step by simp
  qed
qed

lemma length_kickback [simp]: "length (kickback ivs fs) = length fs"
  by (induction ivs arbitrary: fs) (auto split: prod.splits)

lemma kickback_enumerate_nth:
  "j < length fs \<Longrightarrow>
     kickback (enumerate n xs) fs ! j
       = (if n \<le> j \<and> j < n + length xs \<and> xs ! (j - n) = CHR ''1'' then neg (fs ! j) else fs ! j)"
proof (induction xs arbitrary: n fs)
  case Nil
  show ?case by auto
next
  case (Cons a xs)
  show ?case
  proof (cases "a = CHR ''1''")
    case False
    then show ?thesis
      using Cons.IH [of fs "Suc n"] Cons.prems
      by (auto simp: nth_Cons' Suc_diff_le not_less_eq_eq)
  next
    case True
    have "j < length (fs[n := neg (fs ! n)])" using Cons.prems by simp
    from Cons.IH [OF this, of "Suc n"] True Cons.prems show ?thesis
      by (auto simp: nth_Cons' nth_list_update Suc_diff_le not_less_eq_eq)
  qed
qed

section \<open>The final state of the recovery program\<close>

lemma recovery_program_encode:
  "recovery_program (fst (encode self S))
     = Inr \<lparr>num_qubits = Suc (length S), num_clbits = length S,
            data = bv_gates S @ bv_measures S\<rparr>"
  by (simp add: recovery_program_def encode_circuit QuantumCircuit_def qc_x_def qc_h_def
      qc_barrier_def qc_compose_def qc_measure_def bv_gates_def bv_measures_def Let_def)

lemma oracle_no_measure: "\<forall>g \<in> set (oracle_gates L ivs). \<not> is_Measure g"
  by (induction ivs) (auto split: prod.splits if_splits)

lemma bv_gates_no_measure: "\<forall>g \<in> set (bv_gates S). \<not> is_Measure g"
  using oracle_no_measure [of "length S" "enumerate 0 (rev S)"]
  by (auto simp: bv_gates_def)

lemma bv_measures_all: "\<forall>g \<in> set (bv_measures S). is_Measure g"
  by (auto simp: bv_measures_def)

lemma takeWhile_none: "\<forall>x \<in> set ys. \<not> P x \<Longrightarrow> takeWhile P ys = []"
  by (cases ys) auto

lemma dropWhile_none: "\<forall>x \<in> set ys. \<not> P x \<Longrightarrow> dropWhile P ys = ys"
  by (cases ys) auto

lemma gates_bv: "gates (bv_program S) = bv_gates S"
  using bv_gates_no_measure [of S] bv_measures_all [of S]
  by (simp add: gates_def bv_program_def takeWhile_append2 takeWhile_none)

lemma measurements_bv: "measurements (bv_program S) = bv_measures S"
  using bv_gates_no_measure [of S] bv_measures_all [of S]
  by (simp add: measurements_def bv_program_def dropWhile_append2 dropWhile_none)

lemma runnable_bv: "runnable (bv_program S)"
proof -
  have 1: "list_all (wires_ok (Suc (length S)) (length S)) (bv_gates S)"
    using wires_oracle [OF enumerate_bound [of "rev S"], of "length S"]
    by (auto simp: bv_gates_def list_all_iff)
  have 2: "list_all (wires_ok (Suc (length S)) (length S)) (bv_measures S)"
    by (auto simp: bv_measures_def list_all_iff in_set_zip)
  have 3: "list_all is_Measure (bv_measures S)"
    using bv_measures_all by (simp add: list_all_iff)
  show ?thesis
    using 1 2 3 by (simp add: runnable_def measurements_bv) (simp add: bv_program_def)
qed

lemma final_state_bv: "final_state (bv_program S) = prod_state (bv_final S)"
proof -
  let ?L = "length S"
  let ?f0 = "replicate (Suc ?L) (1::int, 0::int)"
  let ?f1 = "?f0[?L := (0, 1)]"
  let ?f2 = "map had ?f1"
  let ?f3 = "kickback (enumerate 0 (rev S)) ?f2"
  have s1: "apply_gate (X ?L) (prod_state ?f0) = prod_state ?f1"
    using apply_X [of ?L ?f0] by (simp del: replicate_Suc)
  have s2: "fold apply_gate (map H [0..<Suc ?L]) (prod_state ?f1) = prod_state ?f2"
    using H_layer [of "Suc ?L" ?f1] by (simp del: replicate_Suc upt_Suc)
  have s3: "fold apply_gate (oracle_gates ?L (enumerate 0 (rev S))) (prod_state ?f2) = prod_state ?f3"
    by (rule oracle_kickback)
       (use enumerate_bound [of "rev S"] in \<open>auto simp: had_def simp del: replicate_Suc\<close>)
  have s4: "fold apply_gate (map H [0..<Suc ?L]) (prod_state ?f3) = prod_state (map had ?f3)"
    using H_layer [of "Suc ?L" ?f3] by (simp del: replicate_Suc upt_Suc)
  show ?thesis
    unfolding final_state_def gates_bv
    by (simp add: bv_program_def bv_gates_def zero_state_prod s1 s2 s3 s4 bv_final_def
          del: apply_gate.simps(1) apply_gate.simps(2) apply_gate.simps(3) upt_Suc replicate_Suc)
qed

lemma bv_final_nth:
  "j \<le> length S \<Longrightarrow>
     bv_final S ! j = (if j < length S \<and> rev S ! j \<noteq> CHR ''1'' then (2, 0) else (0, 2))"
  using kickback_enumerate_nth [of j "map had ((replicate (Suc (length S)) (1, 0))[length S := (0, 1)])" 0 "rev S"]
  by (auto simp: bv_final_def had_def neg_def nth_list_update nth_replicate less_Suc_eq_le
           simp del: replicate_Suc)

lemma length_bv_final [simp]: "length (bv_final S) = Suc (length S)"
  by (simp add: bv_final_def del: replicate_Suc)

lemma bv_support: "final_state (bv_program S) b \<noteq> 0 \<longleftrightarrow> b = bv_answer S"
proof (cases "length b = Suc (length S)")
  case False
  then show ?thesis
    by (auto simp: final_state_bv prod_state_def bv_answer_def)
next
  case True
  have "final_state (bv_program S) b \<noteq> 0
      \<longleftrightarrow> (\<forall>i<Suc (length S). pick (bv_final S ! i) (b ! i) \<noteq> 0)"
    using True by (auto simp: final_state_bv prod_state_def prod_zero_iff simp del: prod.lessThan_Suc lessThan_Suc)
  also have "\<dots> \<longleftrightarrow> (\<forall>i<Suc (length S). b ! i = bv_answer S ! i)"
  proof (intro all_cong imp_cong refl)
    fix i assume "i < Suc (length S)"
    then show "pick (bv_final S ! i) (b ! i) \<noteq> 0 \<longleftrightarrow> b ! i = bv_answer S ! i"
      using bv_final_nth [of i S]
      by (auto simp: pick_def bv_answer_def nth_append less_Suc_eq_le)
  qed
  also have "\<dots> \<longleftrightarrow> b = bv_answer S"
    using True by (auto simp: list_eq_iff_nth_eq bv_answer_def)
  finally show ?thesis .
qed

lemma record_bits:
  "k \<le> length cl \<Longrightarrow>
     fold (record_bit b) (map (\<lambda>i. Measure i i) [0..<k]) cl
       = map (\<lambda>i. if i < k then b ! i else cl ! i) [0..<length cl]"
proof (induction k)
  case 0
  show ?case by (simp add: map_nth)
next
  case (Suc k)
  then show ?case
    by (auto intro!: nth_equalityI simp: nth_list_update less_Suc_eq)
qed

lemma bv_measures_conv: "bv_measures S = map (\<lambda>i. Measure i i) [0..<length S]"
  by (simp add: bv_measures_def zip_same_conv_map)

lemma readout_bv:
  assumes "length b = Suc (length S)"
  shows "readout (bv_program S) b
     = map (\<lambda>bit. if bit then CHR ''1'' else CHR ''0'') (rev (take (length S) b))"
proof -
  have "fold (record_bit b) (bv_measures S) (replicate (length S) False) = take (length S) b"
    using assms record_bits [of "length S" "replicate (length S) False" b]
    by (auto intro!: nth_equalityI simp: bv_measures_conv)
  then show ?thesis
    by (simp add: readout_def measurements_bv) (simp add: bv_program_def)
qed

lemma readout_answer:
  assumes "bitstring S"
  shows "readout (bv_program S) (bv_answer S) = S"
proof -
  have "map (\<lambda>bit. if bit then CHR ''1'' else CHR ''0'') (map (\<lambda>v. v = CHR ''1'') S) = S"
    using assms by (induction S) (auto simp: bitstring_def)
  then show ?thesis
    by (simp add: readout_bv bv_answer_def rev_map)
qed

lemma singleton_list: "distinct ys \<Longrightarrow> set ys = {y} \<Longrightarrow> ys = [y]"
  by (cases ys) (auto simp: subset_singleton_iff dest: arg_cong [where f = "\<lambda>A. A - {y}"])

lemma bv_answer_listed: "bv_answer S \<in> set (List.n_lists (Suc (length S)) [False, True])"
  unfolding set_n_lists by (auto simp: bv_answer_def)

lemma outcomes_bv:
  assumes "bitstring S"
  shows "outcomes (bv_program S) = [S]"
proof -
  let ?all = "List.n_lists (Suc (length S)) [False, True]"
  have "set (filter (\<lambda>b. final_state (bv_program S) b \<noteq> 0) ?all) = {bv_answer S}"
    using bv_answer_listed [of S] by (auto simp: bv_support)
  then have "set (outcomes (bv_program S)) = {S}"
    using readout_answer [OF assms]
    by (simp add: outcomes_def) (simp add: bv_program_def)
  moreover have "distinct (outcomes (bv_program S))"
    by (simp add: outcomes_def)
  ultimately show ?thesis by (rule singleton_list [rotated])
qed

lemma count_list_replicate: "count_list (replicate n y) y = n"
  by (induction n) simp_all

lemma tally_replicate: "0 < n \<Longrightarrow> tally (replicate n y) = [(y, n)]"
proof -
  assume n: "0 < n"
  have "remdups (replicate n y) = [y]"
    by (rule singleton_list) (use n in auto)
  then show ?thesis by (simp add: tally_def count_list_replicate)
qed

lemma most_frequent_single: "most_frequent [(y, n)] = Inr y"
  by (simp add: most_frequent_def Let_def)

lemma ideal_simulator_bv:
  assumes "bitstring S" "1 \<le> n" "S \<noteq> []"
  shows "ideal_simulator rnd (bv_program S) n = Inr [(S, nat n)]"
proof -
  have "map (\<lambda>k. [S] ! (rnd k mod length [S])) [0..<nat n] = replicate (nat n) S"
    by (simp add: map_replicate_const)
  moreover have "num_clbits (bv_program S) \<noteq> 0"
    using assms(3) by (simp add: bv_program_def)
  ultimately show ?thesis
    using assms tally_replicate [of "nat n" S]
    by (simp add: ideal_simulator_def runnable_bv outcomes_bv)
qed

lemma guess_encode:
  assumes "bitstring S" "1 \<le> n" "S \<noteq> []"
  shows "guess \<lparr>backend = ideal_simulator rnd, shots = n\<rparr> (fst (encode self S)) = Inr S"
  using ideal_simulator_bv [OF assms]
  by (simp add: guess_def recovery_program_encode bv_program_def [symmetric] most_frequent_single)

section \<open>The recovery program and its answer\<close>

lemma recovery_program_shape:
  assumes "num_qubits code' = Suc (num_clbits code')"
  shows "recovery_program code'
     = Inr \<lparr>num_qubits = num_qubits code', num_clbits = num_clbits code',
            data = recovery_prefix (num_qubits code') @ data code'
                     @ recovery_suffix (num_qubits code') (num_clbits code')\<rparr>"
  using assms
  by (simp add: recovery_program_def QuantumCircuit_def qc_x_def qc_h_def qc_barrier_def
      qc_compose_def qc_measure_def recovery_prefix_def recovery_suffix_def Let_def
      del: upt_Suc)

lemma guess_through_program:
  assumes "recovery_program code' = Inr qc"
  shows "guess \<lparr>backend = b, shots = n\<rparr> code'
     = (case b qc n of Inl e \<Rightarrow> Inl e | Inr cs \<Rightarrow> most_frequent cs)"
  using assms by (simp add: guess_def)

text \<open>
  Claim C3. With the noiseless simulator and one shot, \<open>guess\<close> applied to the circuit
  \<open>encode\<close> built for a bit-string \<open>S\<close> of a length from 1 to 8 returns \<open>S\<close>, whatever the
  simulator's random choices \<open>rnd\<close> are. The program \<open>guess\<close> builds contains the
  instructions of the encoded circuit exactly once, as one block between a prefix and a
  suffix that depend on the register sizes only; and \<open>guess\<close> learns of the fragment
  through that program alone: with any backend \<open>b\<close> and any shot count \<open>n\<close>, its result
  is the decoding of what \<open>b\<close> answers to this very program, or the failure of \<open>b\<close>.
\<close>

theorem guess_recovers_secret:
  assumes "bitstring S" "1 \<le> length S" "length S \<le> 8"
  shows "guess \<lparr>backend = ideal_simulator rnd, shots = 1\<rparr> (fst (encode self S)) = Inr S
    \<and> recovery_program (fst (encode self S))
        = Inr \<lparr>num_qubits = length S + 1, num_clbits = length S,
               data = recovery_prefix (length S + 1) @ data (fst (encode self S))
                        @ recovery_suffix (length S + 1) (length S)\<rparr>
    \<and> guess \<lparr>backend = b, shots = n\<rparr> (fst (encode self S))
        = (case b \<lparr>num_qubits = length S + 1, num_clbits = length S,
                    data = recovery_prefix (length S + 1) @ data (fst (encode self S))
                             @ recovery_suffix (length S + 1) (length S)\<rparr> n of
             Inl e \<Rightarrow> Inl e
           | Inr cs \<Rightarrow> most_frequent cs)"
proof -
  have ne: "S \<noteq> []" using assms(2) by auto
  have 1: "guess \<lparr>backend = ideal_simulator rnd, shots = 1\<rparr> (fst (encode self S)) = Inr S"
    using assms(1) ne by (simp add: guess_encode)
  have 2: "recovery_program (fst (encode self S))
        = Inr \<lparr>num_qubits = length S + 1, num_clbits = length S,
               data = recovery_prefix (length S + 1) @ data (fst (encode self S))
                        @ recovery_suffix (length S + 1) (length S)\<rparr>"
    using recovery_program_shape [of "fst (encode self S)"]
    by (simp add: encode_circuit)
  from 1 2 guess_through_program [OF 2, of b n] show ?thesis by simp
qed

theorem guess_recovers_secret_witness:
  "bitstring ''1010'' \<and> 1 \<le> length ''1010'' \<and> length ''1010'' \<le> 8
   \<and> guess \<lparr>backend = ideal_simulator (\<lambda>k. 0), shots = 1\<rparr>
        (fst (encode QuantumEncoder_init ''1010'')) = Inr ''1010''
   \<and> guess \<lparr>backend = (\<lambda>qc n. if data qc = [X 4, H 0, H 1, H 2, H 3, H 4, Barrier,
                                    CX 1 4, CX 3 4, Barrier, H 0, H 1, H 2, H 3, H 4, Barrier,
                                    Measure 0 0, Measure 1 1, Measure 2 2, Measure 3 3]
                                  then Inr [(''seen'', 1)] else Inl ValueError), shots = 1\<rparr>
        (fst (encode QuantumEncoder_init ''1010'')) = Inr ''seen''"
proof -
  let ?b = "\<lambda>qc (n::int). if data qc = [X 4, H 0, H 1, H 2, H 3, H 4, Barrier,
                                    CX 1 4, CX 3 4, Barrier, H 0, H 1, H 2, H 3, H 4, Barrier,
                                    Measure 0 0, Measure 1 1, Measure 2 2, Measure 3 3]
                                  then Inr [(''seen'', 1::nat)] else Inl ValueError"
  have h1: "bitstring ''1010''" by (simp add: bitstring_def)
  have h2: "1 \<le> length ''1010''" by simp
  have h3: "length ''1010'' \<le> 8" by simp
  have d: "data (fst (encode QuantumEncoder_init ''1010'')) = [CX 1 4, CX 3 4]"
    by code_simp
  have p: "recovery_prefix (length ''1010'' + 1) = [X 4, H 0, H 1, H 2, H 3, H 4, Barrier]"
    by code_simp
  have s: "recovery_suffix (length ''1010'' + 1) (length ''1010'')
      = [Barrier, H 0, H 1, H 2, H 3, H 4, Barrier,
         Measure 0 0, Measure 1 1, Measure 2 2, Measure 3 3]"
    by code_simp
  note T = guess_recovers_secret [OF h1 h2 h3, of "\<lambda>k. 0" QuantumEncoder_init ?b 1]
  from T have 1: "guess \<lparr>backend = ideal_simulator (\<lambda>k. 0), shots = 1\<rparr>
        (fst (encode QuantumEncoder_init ''1010'')) = Inr ''1010''"
    by (rule conjunct1)
  from T have "guess \<lparr>backend = ?b, shots = 1\<rparr> (fst (encode QuantumEncoder_init ''1010''))
      = (case ?b \<lparr>num_qubits = length ''1010'' + 1, num_clbits = length ''1010'',
                    data = recovery_prefix (length ''1010'' + 1)
                             @ data (fst (encode QuantumEncoder_init ''1010''))
                             @ recovery_suffix (length ''1010'' + 1) (length ''1010'')\<rparr> 1 of
             Inl e \<Rightarrow> Inl e
           | Inr cs \<Rightarrow> most_frequent cs)"
    by (rule conjunct2 [THEN conjunct2])
  then have 2: "guess \<lparr>backend = ?b, shots = 1\<rparr> (fst (encode QuantumEncoder_init ''1010''))
      = Inr ''seen''"
    unfolding p s d by (simp add: most_frequent_single)
  from h1 h2 h3 1 2 show ?thesis by (intro conjI)
qed

section \<open>The empty secret\<close>

lemma most_frequent_empty: "most_frequent [] = Inl QiskitError"
  by (simp add: most_frequent_def)

lemma ideal_simulator_no_clbits:
  "num_clbits qc = 0 \<Longrightarrow>
     ideal_simulator rnd qc n = Inl QiskitError \<or> ideal_simulator rnd qc n = Inr []"
  by (simp add: ideal_simulator_def)

lemma guess_empty_secret:
  "guess \<lparr>backend = ideal_simulator rnd, shots = n\<rparr> (fst (encode self '''')) = Inl QiskitError"
proof -
  have prog: "recovery_program (fst (encode self '''')) = Inr (bv_program '''')"
    by (simp add: recovery_program_encode bv_program_def)
  have "num_clbits (bv_program '''') = 0" by (simp add: bv_program_def)
  from ideal_simulator_no_clbits [OF this, of rnd n] show ?thesis
    by (auto simp: guess_def prog most_frequent_empty)
qed

text \<open>
  Claim C8 as stated fails: for the empty secret \<open>guess\<close> does not return the empty
  string. The program it builds has no classical bit, the simulator's table is empty,
  and decoding an empty table fails.
\<close>

theorem guess_empty_secret_counterexample:
  "guess \<lparr>backend = ideal_simulator (\<lambda>k. 0), shots = 1\<rparr> (fst (encode QuantumEncoder_init ''''))
     = Inl QiskitError"
  by (rule guess_empty_secret)

text \<open>
  Claim C8, amended. For the empty secret \<open>encode\<close> yields a fragment without
  instructions over one qubit and no classical bit, which leaves its input as it is, and
  \<open>check\<close> of the empty guess returns the hint \<open>False\<close> and \<open>matched = True\<close>. \<open>guess\<close> on
  that fragment, with the noiseless simulator and any shot count, fails with the
  library's error.
\<close>

theorem empty_secret_degenerate:
  "fst (encode self '''') = \<lparr>num_qubits = 1, num_clbits = 0, data = []\<rparr>
   \<and> apply_fragment (fst (encode self '''')) [v] = Some [v]
   \<and> guess \<lparr>backend = ideal_simulator rnd, shots = n\<rparr> (fst (encode self '''')) = Inl QiskitError
   \<and> check sh (snd (encode self '''')) '''' = Inr (PyBool False, True)"
proof -
  have a: "fst (encode self '''') = \<lparr>num_qubits = 1, num_clbits = 0, data = []\<rparr>"
    by (simp add: encode_circuit enumerate_eq_zip)
  have b: "apply_fragment (fst (encode self '''')) [v] = Some [v]"
    unfolding a by (simp add: apply_fragment_def)
  have c: "guess \<lparr>backend = ideal_simulator rnd, shots = n\<rparr> (fst (encode self ''''))
      = Inl QiskitError"
    by (rule guess_empty_secret)
  have d: "check sh (snd (encode self '''')) '''' = Inr (PyBool False, True)"
    by (simp add: encode_def check_def Let_def)
  from a b c d show ?thesis by (intro conjI)
qed

section \<open>The shot count\<close>

lemma recovery_program_error: "recovery_program code' = Inl e \<Longrightarrow> e = QiskitError"
  by (auto simp: recovery_program_def qc_h_def qc_measure_def Let_def split: if_splits)

lemma ideal_simulator_no_shots:
  "n < 1 \<Longrightarrow> ideal_simulator rnd qc n = Inl QiskitError \<or> ideal_simulator rnd qc n = Inr []"
  by (simp add: ideal_simulator_def tally_def)

text \<open>
  Claim C6 as stated fails: with \<open>shots = 0\<close> the guesser raises nothing of its own; it
  hands the program to its backend and decodes whatever the backend answers.
\<close>

theorem guess_zero_shots_counterexample:
  "shots \<lparr>backend = (\<lambda>qc n. Inr [(''1'', 1)]), shots = 0\<rparr> < 1
   \<and> guess \<lparr>backend = (\<lambda>qc n. Inr [(''1'', 1)]), shots = 0\<rparr>
        (fst (encode QuantumEncoder_init ''1'')) = Inr ''1''"
  by (simp add: guess_def recovery_program_encode most_frequent_single)

text \<open>
  Claim C6, amended. \<open>guess\<close> does not look at the shot count. Also for a count below
  one it passes the program and the count to the backend, and its result is the decoding
  of the backend's answer, or the backend's failure. With the noiseless simulator such
  a count gives no shot, and the attempt fails with the library's error.
\<close>

theorem guess_passes_shots_on:
  assumes "n < 1"
  shows "(recovery_program code' = Inr qc \<longrightarrow>
            guess \<lparr>backend = b, shots = n\<rparr> code'
              = (case b qc n of Inl e \<Rightarrow> Inl e | Inr cs \<Rightarrow> most_frequent cs))
    \<and> guess \<lparr>backend = ideal_simulator rnd, shots = n\<rparr> code' = Inl QiskitError"
proof
  show "recovery_program code' = Inr qc \<longrightarrow>
            guess \<lparr>backend = b, shots = n\<rparr> code'
              = (case b qc n of Inl e \<Rightarrow> Inl e | Inr cs \<Rightarrow> most_frequent cs)"
    by (simp add: guess_def)
  show "guess \<lparr>backend = ideal_simulator rnd, shots = n\<rparr> code' = Inl QiskitError"
  proof (cases "recovery_program code'")
    case (Inl e)
    then show ?thesis using recovery_program_error [OF Inl] by (simp add: guess_def)
  next
    case (Inr qc')
    then show ?thesis
      using ideal_simulator_no_shots [OF assms, of rnd qc']
      by (auto simp: guess_def most_frequent_empty)
  qed
qed

theorem guess_passes_shots_on_witness:
  "(0::int) < 1
   \<and> recovery_program (fst (encode QuantumEncoder_init ''1''))
        = Inr \<lparr>num_qubits = 2, num_clbits = 1,
               data = [X 1, H 0, H 1, Barrier, CX 0 1, Barrier, H 0, H 1, Barrier, Measure 0 0]\<rparr>
   \<and> guess \<lparr>backend = (\<lambda>qc n. Inr [(''0'', 2), (''1'', 3)]), shots = 0\<rparr>
        (fst (encode QuantumEncoder_init ''1'')) = Inr ''1''
   \<and> guess \<lparr>backend = ideal_simulator (\<lambda>k. 0), shots = 0\<rparr>
        (fst (encode QuantumEncoder_init ''1'')) = Inl QiskitError"
proof -
  have prog: "recovery_program (fst (encode QuantumEncoder_init ''1''))
        = Inr \<lparr>num_qubits = 2, num_clbits = 1,
               data = [X 1, H 0, H 1, Barrier, CX 0 1, Barrier, H 0, H 1, Barrier, Measure 0 0]\<rparr>"
    by code_simp
  have dec: "most_frequent [(''0'', 2), (''1'', 3)] = Inr ''1''"
    by code_simp
  show ?thesis
    using guess_passes_shots_on [of 0 "fst (encode QuantumEncoder_init ''1'')"
        "\<lparr>num_qubits = 2, num_clbits = 1,
               data = [X 1, H 0, H 1, Barrier, CX 0 1, Barrier, H 0, H 1, Barrier, Measure 0 0]\<rparr>"
        "\<lambda>qc n. Inr [(''0'', 2), (''1'', 3)]" "\<lambda>k. 0"]
    by (simp add: prog dec)
qed

section \<open>Decoding the counts\<close>

lemma fold_max_ge: "(a::nat) \<le> fold max xs a"
  by (induction xs arbitrary: a) (auto intro: order_trans [OF max.cobounded2])

lemma fold_max_upper: "x \<in> set xs \<Longrightarrow> (x::nat) \<le> fold max xs a"
proof (induction xs arbitrary: a)
  case Nil
  then show ?case by simp
next
  case (Cons y ys)
  show ?case
  proof (cases "x = y")
    case True
    have "y \<le> max y a" by simp
    also have "\<dots> \<le> fold max ys (max y a)" by (rule fold_max_ge)
    finally show ?thesis using True by simp
  next
    case False
    with Cons.prems have "x \<in> set ys" by simp
    from Cons.IH [OF this] show ?thesis by simp
  qed
qed

lemma fold_max_bound: "\<forall>x \<in> set xs. x \<le> n \<Longrightarrow> a \<le> n \<Longrightarrow> fold max xs a \<le> (n::nat)"
  by (induction xs arbitrary: a) auto

lemma fold_max_eq:
  assumes "(k, n) \<in> set cs" "\<forall>kv \<in> set cs. snd kv \<le> n"
  shows "fold max (map snd cs) 0 = (n::nat)"
proof (rule antisym)
  show "fold max (map snd cs) 0 \<le> n"
    using assms(2) by (intro fold_max_bound) auto
  have "n \<in> set (map snd cs)" using assms(1) by force
  then show "n \<le> fold max (map snd cs) 0" by (rule fold_max_upper)
qed

lemma most_frequent_unique:
  assumes "distinct cs" "(k, n) \<in> set cs" "\<forall>kv \<in> set cs. kv \<noteq> (k, n) \<longrightarrow> snd kv < n"
  shows "most_frequent cs = Inr k"
proof -
  have le: "\<forall>kv \<in> set cs. snd kv \<le> n"
    using assms(3) by (metis less_imp_le order_refl snd_conv)
  have m: "fold max (map snd cs) 0 = n"
    using assms(2) le by (rule fold_max_eq)
  have "set (filter (\<lambda>kv. snd kv = n) cs) = {(k, n)}"
    using assms(2,3) by auto
  moreover have "distinct (filter (\<lambda>kv. snd kv = n) cs)"
    using assms(1) by simp
  ultimately have "filter (\<lambda>kv. snd kv = n) cs = [(k, n)]"
    by (rule singleton_list [rotated])
  then show ?thesis
    using assms(2) m by (auto simp: most_frequent_def Let_def)
qed

lemma most_frequent_tie:
  assumes "(k1, n) \<in> set cs" "(k2, n) \<in> set cs" "k1 \<noteq> k2" "\<forall>kv \<in> set cs. snd kv \<le> n"
  shows "most_frequent cs = Inl QiskitError"
proof -
  have m: "fold max (map snd cs) 0 = n"
    using assms(1,4) by (rule fold_max_eq)
  let ?top = "map fst (filter (\<lambda>kv. snd kv = n) cs)"
  have "k1 \<in> set ?top" "k2 \<in> set ?top"
    using assms(1,2) by force+
  then have "length ?top \<noteq> 1"
    using assms(3) by (cases ?top) auto
  then show ?thesis
    using m by (simp add: most_frequent_def Let_def)
qed

text \<open>
  Claim C7 as stated fails: when two outcomes share the greatest count, the decoding
  does not return the smaller one (\<open>0\<close> here); it fails.
\<close>

theorem guess_tie_counterexample:
  "guess \<lparr>backend = (\<lambda>qc n. Inr [(''0'', 1), (''1'', 1)]), shots = 2\<rparr>
      (fst (encode QuantumEncoder_init ''1'')) = Inl QiskitError"
  by (simp add: guess_def recovery_program_encode most_frequent_def)

text \<open>
  Claim C7, amended. Let the backend answer the table \<open>cs\<close>. When one outcome has a
  count greater than every other entry, \<open>guess\<close> returns that outcome. When two different
  outcomes both have the greatest count, \<open>guess\<close> fails with the library's error: no tie
  is broken.
\<close>

theorem guess_most_frequent_or_error:
  assumes "recovery_program code' = Inr qc" "backend self qc (shots self) = Inr cs"
  shows "(distinct cs \<and> (k, n) \<in> set cs \<and> (\<forall>kv \<in> set cs. kv \<noteq> (k, n) \<longrightarrow> snd kv < n)
            \<longrightarrow> guess self code' = Inr k)
    \<and> ((k1, m) \<in> set cs \<and> (k2, m) \<in> set cs \<and> k1 \<noteq> k2 \<and> (\<forall>kv \<in> set cs. snd kv \<le> m)
            \<longrightarrow> guess self code' = Inl QiskitError)"
proof -
  have g: "guess self code' = most_frequent cs"
    using assms by (simp add: guess_def)
  show ?thesis
    unfolding g using most_frequent_unique [of cs k n] most_frequent_tie [of k1 m cs k2]
    by blast
qed

theorem guess_most_frequent_or_error_witness:
  "guess \<lparr>backend = (\<lambda>qc n. Inr [(''01'', 1), (''10'', 3), (''11'', 1)]), shots = 5\<rparr>
      (fst (encode QuantumEncoder_init ''10'')) = Inr ''10''
   \<and> guess \<lparr>backend = (\<lambda>qc n. Inr [(''01'', 2), (''10'', 2), (''11'', 1)]), shots = 5\<rparr>
      (fst (encode QuantumEncoder_init ''10'')) = Inl QiskitError"
proof -
  have prog: "recovery_program (fst (encode QuantumEncoder_init ''10'')) = Inr (bv_program ''10'')"
    by (simp add: recovery_program_encode bv_program_def)
  have 1: "guess \<lparr>backend = (\<lambda>qc n. Inr [(''01'', 1), (''10'', 3), (''11'', 1)]), shots = 5\<rparr>
      (fst (encode QuantumEncoder_init ''10'')) = Inr ''10''"
    using guess_most_frequent_or_error [OF prog,
        of "\<lparr>backend = (\<lambda>qc n. Inr [(''01'', 1), (''10'', 3), (''11'', 1)]), shots = 5\<rparr>"
           "[(''01'', 1), (''10'', 3), (''11'', 1)]" "''10''" 3 "''01''" 1 "''11''"]
    by simp
  have 2: "guess \<lparr>backend = (\<lambda>qc n. Inr [(''01'', 2), (''10'', 2), (''11'', 1)]), shots = 5\<rparr>
      (fst (encode QuantumEncoder_init ''10'')) = Inl QiskitError"
    using guess_most_frequent_or_error [OF prog,
        of "\<lparr>backend = (\<lambda>qc n. Inr [(''01'', 2), (''10'', 2), (''11'', 1)]), shots = 5\<rparr>"
           "[(''01'', 2), (''10'', 2), (''11'', 1)]" "''10''" 3 "''01''" 2 "''10''"]
    by simp
  show ?thesis using 1 2 by simp
qed

section \<open>The game loop\<close>

lemma play_loop_done:
  "play_loop sh self enc code' attempts hint' True w = Some (Inr attempts, w)"
  by (subst play_loop.simps) simp

text \<open>
  What the loop prints when it returns: the attempt numbers printed are the successors
  of the starting number up to the final count \<open>k\<close>, one \<^verbatim>\<open>incorrect guess\<close> line per
  increment, and neither the objects nor the global name are touched.
\<close>

lemma play_loop_counts:
  assumes "play_loop sh self enc code' a h0 c w = Some y"
  shows "\<forall>k w'. y = (Inr k, w') \<longrightarrow>
       a \<le> k \<and> heap w' = heap w \<and> global_p1 w' = global_p1 w
     \<and> (\<exists>new. stdout w' = stdout w @ new
           \<and> concat (map (\<lambda>l. case l of Attempt n \<Rightarrow> [n] | _ \<Rightarrow> []) new) = [a + 1..k]
           \<and> length (filter (\<lambda>l. l = IncorrectGuess) new) = nat (k - a))"
  using assms
proof (induction sh self enc code' a h0 c w y rule: play_loop.raw_induct [rotated, consumes 1])
  case (1 loop sh self enc code' a h0 c w y)
  show ?case
  proof (intro allI impI)
    fix k w' assume y: "y = (Inr k, w')"
    show "a \<le> k \<and> heap w' = heap w \<and> global_p1 w' = global_p1 w
     \<and> (\<exists>new. stdout w' = stdout w @ new
           \<and> concat (map (\<lambda>l. case l of Attempt n \<Rightarrow> [n] | _ \<Rightarrow> []) new) = [a + 1..k]
           \<and> length (filter (\<lambda>l. l = IncorrectGuess) new) = nat (k - a))"
    proof (cases c)
      case True
      with 1(2) y show ?thesis by simp
    next
      case False
      let ?w1 = "print (Attempt (a + 1)) (print (Hint (truthy h0)) (print IncorrectGuess w))"
      obtain r ls where g: "guesser_guess (p2 self) code' (stdin ?w1) = (r, ls)"
        by (cases "guesser_guess (p2 self) code' (stdin ?w1)")
      from False 1(2) y g obtain guess' where r: "r = Inr guess'"
        by (cases r) (auto simp: Let_def)
      from False 1(2) y g r obtain h1 c1 where ch: "check sh enc guess' = Inr (h1, c1)"
        by (cases "check sh enc guess'") (auto simp: Let_def)
      from False 1(2) y g r ch
      have rec: "loop sh self enc code' (a + 1) h1 c1 (?w1\<lparr>stdin := ls\<rparr>) = Some (Inr k, w')"
        by (simp add: Let_def)
      from 1(1) [OF rec] obtain new where
        ih: "a + 1 \<le> k" "heap w' = heap (?w1\<lparr>stdin := ls\<rparr>)"
            "global_p1 w' = global_p1 (?w1\<lparr>stdin := ls\<rparr>)"
            "stdout w' = stdout (?w1\<lparr>stdin := ls\<rparr>) @ new"
            "concat (map (\<lambda>l. case l of Attempt n \<Rightarrow> [n] | _ \<Rightarrow> []) new) = [a + 1 + 1..k]"
            "length (filter (\<lambda>l. l = IncorrectGuess) new) = nat (k - (a + 1))"
        by blast
      let ?new = "[IncorrectGuess, Hint (truthy h0), Attempt (a + 1)] @ new"
      have "stdout w' = stdout w @ ?new"
        using ih(4) by (simp add: print_def)
      moreover have "concat (map (\<lambda>l. case l of Attempt n \<Rightarrow> [n] | _ \<Rightarrow> []) ?new) = [a + 1..k]"
        using ih(1,5) by (simp add: upto_rec1 [of "a + 1" k])
      moreover have "length (filter (\<lambda>l. l = IncorrectGuess) ?new) = nat (k - a)"
        using ih(1,6) by simp
      ultimately show ?thesis
        using ih(1,2,3) by (simp add: print_def)
    qed
  qed
qed


text \<open>
  What \<open>play\<close> prints when it returns normally: the attempt numbers \<open>1\<close> to \<open>k\<close>, with
  \<open>k - 1\<close> \<^verbatim>\<open>incorrect guess\<close> lines, and last the code held by the object the global
  name \<^verbatim>\<open>p1\<close> is bound to.
\<close>

lemma play_reports:
  assumes "play sh self len w = Some (Inr (), w')"
  shows "\<exists>a k new. global_p1 w = Some a \<and> 1 \<le> k
     \<and> stdout w' = stdout w @ new @ [Found (codemaker.code (setter_code (heap w' a)))]
     \<and> concat (map (\<lambda>l. case l of Attempt n \<Rightarrow> [n] | _ \<Rightarrow> []) new) = [1..k]
     \<and> length (filter (\<lambda>l. l = IncorrectGuess) new) = nat (k - 1)"
proof -
  obtain r0 ls0 where s0: "setter_setCode (heap w (p1 self)) len (stdin w) = (r0, ls0)"
    by (cases "setter_setCode (heap w (p1 self)) len (stdin w)")
  from assms s0 obtain s where r0: "r0 = Inr s"
    by (cases r0) (auto simp: play_def)
  let ?w1 = "w\<lparr>stdin := ls0, heap := (heap w)(p1 self := s)\<rparr>"
  obtain code' enc where e: "encode (encoder self) (fst (getCode (setter_code (heap ?w1 (p1 self))))) = (code', enc)"
    by (cases "encode (encoder self) (fst (getCode (setter_code (heap ?w1 (p1 self)))))")
  let ?w2 = "print (Attempt 1) ?w1"
  obtain r1 ls1 where g: "guesser_guess (p2 self) code' (stdin ?w2) = (r1, ls1)"
    by (cases "guesser_guess (p2 self) code' (stdin ?w2)")
  have e': "encode (encoder self) (fst (getCode (setter_code s))) = (code', enc)"
    using e by simp
  have g': "guesser_guess (p2 self) code' ls0 = (r1, ls1)"
    using g by (simp add: print_def)
  from assms s0 r0 e' g' obtain guess' where r1: "r1 = Inr guess'"
    by (cases r1) (auto simp: play_def Let_def print_def)
  from assms s0 r0 e' g' r1 obtain h1 c1 where ch: "check sh enc guess' = Inr (h1, c1)"
    by (cases "check sh enc guess'") (auto simp: play_def Let_def print_def)
  let ?w3 = "?w2\<lparr>stdin := ls1\<rparr>"
  from assms s0 r0 e' g' r1 ch obtain k w4 where
    lp: "play_loop sh self enc code' 1 h1 c1 ?w3 = Some (Inr k, w4)"
    by (cases "play_loop sh self enc code' 1 h1 c1 ?w3")
       (auto simp: play_def Let_def print_def split: sum.splits)
  from assms s0 r0 e' g' r1 ch lp obtain a where
    a: "global_p1 w4 = Some a"
    and w': "w' = print (Found (fst (getCode (setter_code (heap w4 a))))) w4"
    by (cases "global_p1 w4") (auto simp: play_def Let_def print_def)
  from play_loop_counts [OF lp] obtain new where
    c: "1 \<le> k" "heap w4 = heap ?w3" "global_p1 w4 = global_p1 ?w3"
       "stdout w4 = stdout ?w3 @ new"
       "concat (map (\<lambda>l. case l of Attempt n \<Rightarrow> [n] | _ \<Rightarrow> []) new) = [1 + 1..k]"
       "length (filter (\<lambda>l. l = IncorrectGuess) new) = nat (k - 1)"
    by blast
  let ?new = "Attempt 1 # new"
  have "global_p1 w = Some a" using a c(3) by (simp add: print_def)
  moreover have "stdout w' = stdout w @ ?new @ [Found (codemaker.code (setter_code (heap w' a)))]"
    using w' c(4) by (simp add: print_def getCode_def)
  moreover have "concat (map (\<lambda>l. case l of Attempt n \<Rightarrow> [n] | _ \<Rightarrow> []) ?new) = [1..k]"
    using c(1,5) by (simp add: upto_rec1 [of 1 k])
  moreover have "length (filter (\<lambda>l. l = IncorrectGuess) ?new) = nat (k - 1)"
    using c(6) by simp
  ultimately show ?thesis using c(1) by blast
qed

text \<open>
  Claim C9 (the code departs from it). A game whose setter is the object at address \<open>1\<close>
  is played in a world where the global name \<^verbatim>\<open>p1\<close> is bound to the object at address
  \<open>0\<close>. The setter's code becomes \<open>1010\<close>; the first guess \<open>0001\<close> does not match, so the
  hint is printed and the counter goes from 1 to 2; the guess \<open>1010\<close> matches and the loop
  ends. The code then reported is \<open>0000\<close>, that of the global object, not the secret of
  the game's own setter. Played with the setter at address \<open>0\<close>, the same game reports
  \<open>1010\<close>.
\<close>

theorem play_reports_global_p1:
  "map_option (\<lambda>(r, w). (r, stdout w, codemaker.code (setter_code (heap w 1))))
     (play no_such_command \<lparr>p1 = 1, p2 = HumanGuesser, encoder = QuantumEncoder_init\<rparr> 4
        two_setters)
     = Some (Inr (), [Attempt 1, IncorrectGuess, Hint False, Attempt 2, Found ''0000''], ''1010'')
   \<and> map_option (\<lambda>(r, w). (r, stdout w, codemaker.code (setter_code (heap w 0))))
     (play no_such_command \<lparr>p1 = 0, p2 = HumanGuesser, encoder = QuantumEncoder_init\<rparr> 4
        two_setters)
     = Some (Inr (), [Attempt 1, IncorrectGuess, Hint False, Attempt 2, Found ''1010''], ''1010'')"
  by code_simp

end
